theory Spec2Isabelle
  imports Complex_Main "HOL-Library.Multiset" "HOL-Library.AList" "HOL-Library.Sublist"
begin

section \<open>The Huffman tree node\<close>

text \<open>
  \<^verbatim>\<open>class Node\<close> of \<^verbatim>\<open>huffman_visualizer.py\<close>: the four fields \<^verbatim>\<open>char\<close>, \<^verbatim>\<open>freq\<close>,
  \<^verbatim>\<open>left\<close>, \<^verbatim>\<open>right\<close>. A field that holds \<^verbatim>\<open>None\<close> is \<open>None\<close> here. The children
  are assigned once, right after the parent is created, and never again, so a node is a
  value. Frequencies are Python integers, hence \<open>int\<close>.
\<close>

datatype 'a node =
  Node (char: "'a option") (freq: int) (left: "'a node option") (right: "'a node option")

text \<open>\<^verbatim>\<open>Node.__init__(char, freq)\<close>: both children start as \<^verbatim>\<open>None\<close>.\<close>

definition Node_init :: "'a option \<Rightarrow> int \<Rightarrow> 'a node" where
  "Node_init c f = Node c f None None"

text \<open>\<^verbatim>\<open>Node.__lt__\<close>: the only comparison the priority queue ever makes.\<close>

definition node_lt :: "'a node \<Rightarrow> 'a node \<Rightarrow> bool" where
  "node_lt self other = (freq self < freq other)"

datatype error = IndexError | KeyError

type_synonym 'a merge_step = "'a node \<times> 'a node \<times> int"

section \<open>The priority queue: Python's \<^verbatim>\<open>heapq\<close> on a list\<close>

text \<open>
  The source calls \<^verbatim>\<open>heapq.heapify\<close>, \<^verbatim>\<open>heapq.heappop\<close> and \<^verbatim>\<open>heapq.heappush\<close> on a
  plain list of nodes. The functions below follow CPython's \<^verbatim>\<open>Lib/heapq.py\<close> statement by
  statement, with \<^verbatim>\<open><\<close> on items being \<open>node_lt\<close>. The two sift routines are private to
  \<^verbatim>\<open>heapq\<close> and are only ever entered with \<open>pos < length heap\<close>, so their list reads
  never leave the list.
\<close>

text \<open>The \<^verbatim>\<open>while pos > startpos\<close> loop of \<^verbatim>\<open>_siftdown\<close>, ending with \<^verbatim>\<open>heap[pos] = newitem\<close>.\<close>

function siftdown_loop :: "'a node list \<Rightarrow> nat \<Rightarrow> nat \<Rightarrow> 'a node \<Rightarrow> 'a node list" where
  "siftdown_loop heap startpos pos newitem =
     (if pos > startpos then
        (let parentpos = (pos - 1) div 2;
             parent = heap ! parentpos
         in if node_lt newitem parent
            then siftdown_loop (heap[pos := parent]) startpos parentpos newitem
            else heap[pos := newitem])
      else heap[pos := newitem])"
  by pat_completeness auto
termination
  by (relation "measure (\<lambda>(heap, startpos, pos, newitem). pos)") auto

declare siftdown_loop.simps [simp del]

definition siftdown :: "'a node list \<Rightarrow> nat \<Rightarrow> nat \<Rightarrow> 'a node list" where
  "siftdown heap startpos pos = siftdown_loop heap startpos pos (heap ! pos)"

text \<open>
  The \<^verbatim>\<open>while childpos < endpos\<close> loop of \<^verbatim>\<open>_siftup\<close>: the smaller child moves up into
  the hole until the hole is a leaf. It returns the list and the final \<^verbatim>\<open>pos\<close>.
\<close>

function siftup_loop :: "'a node list \<Rightarrow> nat \<Rightarrow> nat \<Rightarrow> nat \<Rightarrow> 'a node list \<times> nat" where
  "siftup_loop heap endpos pos childpos =
     (if childpos < endpos then
        (let rightpos = childpos + 1;
             childpos1 = (if rightpos < endpos \<and> \<not> node_lt (heap ! childpos) (heap ! rightpos)
                          then rightpos else childpos)
         in siftup_loop (heap[pos := heap ! childpos1]) endpos childpos1 (2 * childpos1 + 1))
      else (heap, pos))"
  by pat_completeness auto
termination
  by (relation "measure (\<lambda>(heap, endpos, pos, childpos). endpos - childpos)") auto

declare siftup_loop.simps [simp del]

definition siftup :: "'a node list \<Rightarrow> nat \<Rightarrow> 'a node list" where
  "siftup heap pos =
     (let endpos = length heap;
          startpos = pos;
          newitem = heap ! pos
      in case siftup_loop heap endpos pos (2 * pos + 1) of
           (heap1, pos1) \<Rightarrow> siftdown (heap1[pos1 := newitem]) startpos pos1)"

text \<open>
  \<^verbatim>\<open>heapify\<close>: \<^verbatim>\<open>for i in reversed(range(n//2)): _siftup(x, i)\<close>, the loop as a
  recursion over the indices it visits.
\<close>

fun heapify_loop :: "'a node list \<Rightarrow> nat list \<Rightarrow> 'a node list" where
  "heapify_loop x [] = x"
| "heapify_loop x (i # rest) = heapify_loop (siftup x i) rest"

definition heapify :: "'a node list \<Rightarrow> 'a node list" where
  "heapify x = (let n = length x in heapify_loop x (rev [0 ..< n div 2]))"

definition heappush :: "'a node list \<Rightarrow> 'a node \<Rightarrow> 'a node list" where
  "heappush heap item = (let heap1 = heap @ [item] in siftdown heap1 0 (length heap1 - 1))"

text \<open>
  \<^verbatim>\<open>heappop\<close> returns the popped item and the list that is left. \<^verbatim>\<open>heap.pop()\<close> on an
  empty list raises \<^verbatim>\<open>IndexError\<close>.
\<close>

definition heappop :: "'a node list \<Rightarrow> error + ('a node \<times> 'a node list)" where
  "heappop heap =
     (if heap = [] then Inl IndexError
      else (let lastelt = last heap;
                heap1 = butlast heap
            in if heap1 \<noteq> [] then
                 (let returnitem = heap1 ! 0;
                      heap2 = heap1[0 := lastelt]
                  in Inr (returnitem, siftup heap2 0))
               else Inr (lastelt, heap1)))"

section \<open>Building the tree\<close>

text \<open>
  The loop of \<^verbatim>\<open>build_huffman_tree\<close> ends because every turn shortens the heap by one
  node. The lengths first: no \<^verbatim>\<open>heapq\<close> routine changes the length of the list but by
  the one item it pushes or pops.
\<close>

lemma length_siftdown_loop [simp]:
  "length (siftdown_loop heap startpos pos newitem) = length heap"
  by (induction heap startpos pos newitem rule: siftdown_loop.induct)
     (subst siftdown_loop.simps, simp add: Let_def)

lemma length_siftdown [simp]: "length (siftdown heap startpos pos) = length heap"
  by (simp add: siftdown_def)

lemma length_siftup_loop [simp]:
  "length (fst (siftup_loop heap endpos pos childpos)) = length heap"
  by (induction heap endpos pos childpos rule: siftup_loop.induct)
     (subst siftup_loop.simps, simp add: Let_def)

lemma length_siftup_loop_eq:
  "siftup_loop heap endpos pos childpos = (h, p) \<Longrightarrow> length h = length heap"
  by (metis fst_conv length_siftup_loop)

lemma length_siftup [simp]: "length (siftup heap pos) = length heap"
  by (auto simp: siftup_def Let_def split: prod.splits dest: length_siftup_loop_eq)

lemma length_heappush [simp]: "length (heappush heap item) = Suc (length heap)"
  by (simp add: heappush_def)

lemma length_heappop:
  "heappop heap = Inr (x, heap') \<Longrightarrow> Suc (length heap') = length heap"
  by (cases heap rule: rev_cases) (auto simp: heappop_def Let_def split: if_splits)

text \<open>
  The \<^verbatim>\<open>while len(heap) > 1\<close> loop of \<^verbatim>\<open>build_huffman_tree\<close>, on the heap and the list of
  steps so far. The source creates \<^verbatim>\<open>parent = Node(None, left.freq + right.freq)\<close> and
  sets its two children in the next two statements; the model builds the finished node.
  The local variables \<^verbatim>\<open>left\<close> and \<^verbatim>\<open>right\<close> are \<open>lnode\<close> and \<open>rnode\<close> here. An
  exception of \<^verbatim>\<open>heappop\<close> would leave the function, so it is returned.
\<close>

function build_loop ::
  "'a node list \<Rightarrow> 'a merge_step list \<Rightarrow> error + ('a node list \<times> 'a merge_step list)" where
  "build_loop heap steps =
     (if length heap > 1 then
        (case heappop heap of
           Inl e \<Rightarrow> Inl e
         | Inr (lnode, heap1) \<Rightarrow>
             (case heappop heap1 of
                Inl e \<Rightarrow> Inl e
              | Inr (rnode, heap2) \<Rightarrow>
                  (let parent = Node None (freq lnode + freq rnode) (Some lnode) (Some rnode);
                       heap3 = heappush heap2 parent
                   in build_loop heap3 (steps @ [(lnode, rnode, freq parent)]))))
      else Inr (heap, steps))"
  by pat_completeness auto
termination
  by (relation "measure (\<lambda>(heap, steps). length heap)")
     (auto dest!: length_heappop)

declare build_loop.simps [simp del]

text \<open>
  \<^verbatim>\<open>build_huffman_tree(freq_map)\<close>. The dictionary is the list of its items in the order
  \<^verbatim>\<open>freq_map.items()\<close> yields them (insertion order), since that order decides the layout
  of the heap; a dictionary has no key twice, which the theorems that need it assume as
  \<open>distinct (map fst freq_map)\<close>. The keys are symbols, so every initial node carries
  one (a key \<^verbatim>\<open>None\<close> is outside the model). The result is
  \<^verbatim>\<open>(heap[0] if heap else None, steps)\<close>.
\<close>

definition build_huffman_tree ::
  "('a \<times> int) list \<Rightarrow> error + ('a node option \<times> 'a merge_step list)" where
  "build_huffman_tree freq_map =
     (let heap = map (\<lambda>(ch, f). Node_init (Some ch) f) freq_map;
          heap = heapify heap
      in case build_loop heap [] of
           Inl e \<Rightarrow> Inl e
         | Inr (heap, steps) \<Rightarrow> Inr (if heap \<noteq> [] then Some (heap ! 0) else None, steps))"

section \<open>Assigning codes\<close>

text \<open>
  \<^verbatim>\<open>assign_codes(node, prefix="", code_map=None)\<close>. The dictionary \<^verbatim>\<open>code_map\<close> is an
  association list in insertion order; \<^verbatim>\<open>code_map[k] = v\<close> is \<open>AList.update\<close>, which
  overwrites in place or appends. The recursive calls mutate the one dictionary, so the
  model threads it through. The third argument is \<open>None\<close> for Python's default; the
  parameter \<^verbatim>\<open>prefix\<close> is \<open>pfx\<close> here.
\<close>

fun assign_codes ::
  "'a node option \<Rightarrow> string \<Rightarrow> ('a \<times> string) list option \<Rightarrow> ('a \<times> string) list" where
  "assign_codes None pfx code_map_arg =
     (case code_map_arg of None \<Rightarrow> [] | Some m \<Rightarrow> m)"
| "assign_codes (Some (Node c f l r)) pfx code_map_arg =
     (let code_map = (case code_map_arg of None \<Rightarrow> [] | Some m \<Rightarrow> m);
          code_map = (case c of Some ch \<Rightarrow> AList.update ch pfx code_map | None \<Rightarrow> code_map);
          code_map = assign_codes l (pfx @ ''0'') (Some code_map);
          code_map = assign_codes r (pfx @ ''1'') (Some code_map)
      in code_map)"

section \<open>Counting, encoding and the report\<close>

text \<open>
  \<^verbatim>\<open>text.lower()\<close>. Isabelle characters are bytes, so the texts of this model are ASCII
  texts: the letters \<^verbatim>\<open>A\<close> to \<^verbatim>\<open>Z\<close> are folded, every other character is kept.
\<close>

definition lower_char :: "char \<Rightarrow> char" where
  "lower_char c =
     (let n = (of_char c :: nat) in if 65 \<le> n \<and> n \<le> 90 then char_of (n + 32) else c)"

definition lower :: "string \<Rightarrow> string" where
  "lower text = map lower_char text"

text \<open>\<^verbatim>\<open>k in d\<close> for a dictionary held as an association list.\<close>

definition dict_contains :: "('k \<times> 'v) list \<Rightarrow> 'k \<Rightarrow> bool" where
  "dict_contains d k = (k \<in> set (map fst d))"

text \<open>
  \<^verbatim>\<open>animate_frequency_count\<close>: \<^verbatim>\<open>freq_data\<close> starts with the 26 letters at zero, and
  \<^verbatim>\<open>step\<close> walks \<^verbatim>\<open>text.lower()\<close>, adding one to the count of every character that is a
  key. The canvas updates and the 10 ms timer between two steps are left out; the value
  is the dictionary handed to the callback.
\<close>

definition initial_freq_data :: "(char \<times> int) list" where
  "initial_freq_data = map (\<lambda>c. (c, 0)) ''abcdefghijklmnopqrstuvwxyz''"

fun count_steps :: "(char \<times> int) list \<Rightarrow> string \<Rightarrow> (char \<times> int) list" where
  "count_steps freq_data [] = freq_data"
| "count_steps freq_data (ch # rest) =
     (if dict_contains freq_data ch
      then (case map_of freq_data ch of
              Some n \<Rightarrow> count_steps (AList.update ch (n + 1) freq_data) rest
            | None \<Rightarrow> count_steps freq_data rest)
      else count_steps freq_data rest)"

definition animate_frequency_count :: "string \<Rightarrow> (char \<times> int) list" where
  "animate_frequency_count text = count_steps initial_freq_data (lower text)"

text \<open>
  \<^verbatim>\<open>''.join(codes[ch] for ch in message if ch in codes)\<close>: the generator of line 208 of the
  source, over the sequence it iterates. \<^verbatim>\<open>codes[ch]\<close> raises \<^verbatim>\<open>KeyError\<close> on a missing
  key; the filter stands before it.
\<close>

fun encode :: "'a list \<Rightarrow> ('a \<times> string) list \<Rightarrow> error + string" where
  "encode [] codes = Inr []"
| "encode (ch # rest) codes =
     (if dict_contains codes ch
      then (case map_of codes ch of
              None \<Rightarrow> Inl KeyError
            | Some code \<Rightarrow>
                (case encode rest codes of Inl e \<Rightarrow> Inl e | Inr out \<Rightarrow> Inr (code @ out)))
      else encode rest codes)"

text \<open>
  \<^verbatim>\<open>compression_ratio\<close>. Python evaluates the expression in binary floating point; the
  model holds its exact rational value.
\<close>

definition compression_ratio :: "int \<Rightarrow> int \<Rightarrow> rat" where
  "compression_ratio original_bits compressed_bits =
     (if original_bits > 0
      then (of_int (original_bits - compressed_bits) / of_int original_bits) * 100
      else 0)"

text \<open>What \<^verbatim>\<open>run_huffman_steps\<close> computes and writes to the log.\<close>

record report =
  merge_steps :: "char merge_step list"
  codes :: "(char \<times> string) list"
  encoded :: string
  original_bits :: int
  compressed_bits :: int
  ratio :: rat

definition run_huffman_steps :: "(char \<times> int) list \<Rightarrow> string \<Rightarrow> error + report" where
  "run_huffman_steps final_freq text =
     (case build_huffman_tree final_freq of
        Inl e \<Rightarrow> Inl e
      | Inr (tree, steps) \<Rightarrow>
          (let cs = assign_codes tree [] None in
           case encode (lower text) cs of
             Inl e \<Rightarrow> Inl e
           | Inr enc \<Rightarrow>
               (let ob = int (length text) * 8;
                    cb = int (length enc)
                in Inr \<lparr>merge_steps = steps, codes = cs, encoded = enc,
                        original_bits = ob, compressed_bits = cb,
                        ratio = compression_ratio ob cb\<rparr>)))"

text \<open>
  \<^verbatim>\<open>run_animation\<close> on the stripped text of the entry field: nothing is computed for the
  empty text, otherwise the counted table goes to \<^verbatim>\<open>run_huffman_steps\<close>.
\<close>

definition run_animation :: "string \<Rightarrow> (error + report) option" where
  "run_animation text =
     (if text = [] then None
      else Some (run_huffman_steps (animate_frequency_count text) text))"

section \<open>Notions used to state the properties\<close>

subsection \<open>The heap order of \<^verbatim>\<open>heapq\<close>\<close>

text \<open>
  \<^verbatim>\<open>heapq\<close> keeps \<^verbatim>\<open>heap[k] <= heap[2*k+1]\<close> and \<^verbatim>\<open>heap[k] <= heap[2*k+2]\<close>; with
  \<open>node_lt\<close> as the comparison this is an order on the weights. \<open>heap_from s\<close> asks it
  of every position \<open>c\<close> whose parent \<open>(c - 1) div 2\<close> is at \<open>s\<close> or later.
\<close>

definition heap_from :: "nat \<Rightarrow> 'a node list \<Rightarrow> bool" where
  "heap_from s h =
     (\<forall>c < length h. 0 < c \<and> s \<le> (c - 1) div 2 \<longrightarrow> freq (h ! ((c - 1) div 2)) \<le> freq (h ! c))"

definition heap_inv :: "'a node list \<Rightarrow> bool" where
  "heap_inv h = heap_from 0 h"

text \<open>The positions below \<open>s\<close> in the implicit binary tree of the list, \<open>s\<close> included.\<close>

inductive desc :: "nat \<Rightarrow> nat \<Rightarrow> bool" for s :: nat where
  desc_self: "desc s s"
| desc_left: "desc s p \<Longrightarrow> desc s (2 * p + 1)"
| desc_right: "desc s p \<Longrightarrow> desc s (2 * p + 2)"

subsection \<open>Trees\<close>

text \<open>
  A well-formed tree: a leaf carries a symbol and no children, an inner node carries no
  symbol, two well-formed children and the sum of their weights.
\<close>

fun wf_tree :: "'a node \<Rightarrow> bool" where
  "wf_tree (Node (Some ch) f None None) = True"
| "wf_tree (Node None f (Some a) (Some b)) = (wf_tree a \<and> wf_tree b \<and> f = freq a + freq b)"
| "wf_tree _ = False"

text \<open>The symbols of a tree with their weights, and with their paths from the root.\<close>

fun leaves :: "'a node \<Rightarrow> ('a \<times> int) list" where
  "leaves (Node c f l r) =
     (case c of Some ch \<Rightarrow> [(ch, f)] | None \<Rightarrow> [])
     @ (case l of None \<Rightarrow> [] | Some a \<Rightarrow> leaves a)
     @ (case r of None \<Rightarrow> [] | Some b \<Rightarrow> leaves b)"

fun paths :: "'a node \<Rightarrow> ('a \<times> string) list" where
  "paths (Node c f l r) =
     (case c of Some ch \<Rightarrow> [(ch, [])] | None \<Rightarrow> [])
     @ (case l of None \<Rightarrow> [] | Some a \<Rightarrow> map (\<lambda>(s, p). (s, CHR ''0'' # p)) (paths a))
     @ (case r of None \<Rightarrow> [] | Some b \<Rightarrow> map (\<lambda>(s, p). (s, CHR ''1'' # p)) (paths b))"

subsection \<open>The greedy merge, as the specification words it\<close>

text \<open>
  A run of the greedy merge on a queue seen as a multiset: while more than one node
  remains, \<open>a\<close> has the lowest weight of the queue, \<open>b\<close> the lowest weight of what is
  left, the new inner node has \<open>a\<close> on the left, \<open>b\<close> on the right and the sum as
  weight, it replaces both, and \<open>(a, b, weight)\<close> is the next step of the trace. The
  run ends on a queue of at most one node. Ties are left open, as in the specification.
\<close>

inductive greedy_run ::
  "'a node multiset \<Rightarrow> 'a merge_step list \<Rightarrow> 'a node multiset \<Rightarrow> bool" where
  greedy_stop: "size Q \<le> 1 \<Longrightarrow> greedy_run Q [] Q"
| greedy_step:
    "size Q > 1 \<Longrightarrow>
     a \<in># Q \<Longrightarrow> (\<forall>x \<in># Q. freq a \<le> freq x) \<Longrightarrow>
     b \<in># Q - {#a#} \<Longrightarrow> (\<forall>x \<in># Q - {#a#}. freq b \<le> freq x) \<Longrightarrow>
     greedy_run (add_mset (Node None (freq a + freq b) (Some a) (Some b)) (Q - {#a#} - {#b#}))
       steps Q' \<Longrightarrow>
     greedy_run Q ((a, b, freq a + freq b) # steps) Q'"

subsection \<open>A decoder\<close>

text \<open>
  Modelled from the spec: the repository has no decoder; the specification asks for one
  "built from the same CodeTable" that decodes "with the prefix tree", for testing the
  round trip. This one walks the tree from the root, left on \<^verbatim>\<open>0\<close> and right on \<^verbatim>\<open>1\<close>,
  emits the symbol of the node it arrives at when that node carries one, and starts again
  from the root. The position is \<open>None\<close> between two code words. The result is \<open>None\<close>
  when a bit leads nowhere or the bits end inside a code word.
\<close>

fun decode_walk :: "'a node \<Rightarrow> 'a node option \<Rightarrow> string \<Rightarrow> 'a list option" where
  "decode_walk tree position [] = (case position of None \<Rightarrow> Some [] | Some n \<Rightarrow> None)"
| "decode_walk tree position (b # bits) =
     (let cur = (case position of None \<Rightarrow> tree | Some n \<Rightarrow> n);
          nxt = (if b = CHR ''0'' then left cur else if b = CHR ''1'' then right cur else None)
      in case nxt of
           None \<Rightarrow> None
         | Some n \<Rightarrow>
             (case char n of
                Some ch \<Rightarrow> map_option (Cons ch) (decode_walk tree None bits)
              | None \<Rightarrow> decode_walk tree (Some n) bits))"

definition decode :: "'a node option \<Rightarrow> string \<Rightarrow> 'a list option" where
  "decode tree bits =
     (case tree of
        None \<Rightarrow> (if bits = [] then Some [] else None)
      | Some t \<Rightarrow> decode_walk t None bits)"

section \<open>Degenerate tables\<close>

lemma build_loop_short: "length heap \<le> 1 \<Longrightarrow> build_loop heap steps = Inr (heap, steps)"
  by (subst build_loop.simps) simp

lemma encode_no_codes: "encode msg [] = Inr []"
  by (induction msg) (simp_all add: dict_contains_def)

text \<open>
  C7. On the empty frequency table \<^verbatim>\<open>build_huffman_tree\<close> returns no root and an empty
  trace, \<^verbatim>\<open>assign_codes\<close> on the absent root returns the empty code table, and every
  message encodes to the empty bit string with that table. All three are regular
  results: no exception is raised.
\<close>

theorem empty_table:
  "build_huffman_tree [] = Inr (None, [])
   \<and> assign_codes None [] None = []
   \<and> encode message (assign_codes None [] None) = Inr []"
  by (simp add: build_huffman_tree_def heapify_def build_loop_short encode_no_codes)

text \<open>
  C1, as the code has it. On a table with the single symbol \<open>a\<close>, whatever its count,
  \<^verbatim>\<open>build_huffman_tree\<close> returns the leaf of \<open>a\<close> as root and an empty trace, and
  \<^verbatim>\<open>assign_codes\<close> maps \<open>a\<close> to the empty string: the prefix is empty at the root, and
  no branch of \<^verbatim>\<open>assign_codes\<close> treats a root that is a leaf apart.
\<close>

theorem single_symbol_table:
  "build_huffman_tree [(a, n)] = Inr (Some (Node (Some a) n None None), [])
   \<and> assign_codes (Some (Node (Some a) n None None)) [] None = [(a, [])]"
  by (simp add: build_huffman_tree_def heapify_def build_loop_short Node_init_def)

text \<open>
  C1 as stated fails on the table \<^verbatim>\<open>{a: 5}\<close>: the code of \<^verbatim>\<open>a\<close> is the empty string,
  not the one-bit code \<^verbatim>\<open>0\<close>.
\<close>

theorem single_symbol_counterexample:
  "build_huffman_tree [(CHR ''a'', 5)] = Inr (Some (Node (Some (CHR ''a'')) 5 None None), [])
   \<and> assign_codes (Some (Node (Some (CHR ''a'')) 5 None None)) [] None = [(CHR ''a'', [])]
   \<and> map_of (assign_codes (Some (Node (Some (CHR ''a'')) 5 None None)) [] None) (CHR ''a'')
       \<noteq> Some ''0''"
  by (simp add: build_huffman_tree_def heapify_def build_loop_short Node_init_def)

section \<open>The queue keeps its nodes\<close>

lemma mset_update_twice:
  assumes "i < length h" "j < length h" "i \<noteq> j"
  shows "mset (h[i := h ! j, j := x]) = mset (h[i := x])"
proof -
  have "mset (h[i := h ! j, j := x]) = add_mset x (mset (h[i := h ! j]) - {#h ! j#})"
    using assms by (simp add: mset_update)
  also have "mset (h[i := h ! j]) = add_mset (h ! j) (mset h - {#h ! i#})"
    using assms by (simp add: mset_update)
  finally show ?thesis using assms by (simp add: mset_update)
qed

lemma mset_siftdown_loop:
  "pos < length heap \<Longrightarrow>
   mset (siftdown_loop heap startpos pos newitem) = mset (heap[pos := newitem])"
proof (induction heap startpos pos newitem rule: siftdown_loop.induct)
  case (1 heap startpos pos newitem)
  let ?pp = "(pos - 1) div 2"
  show ?case
  proof (cases "startpos < pos \<and> node_lt newitem (heap ! ?pp)")
    case True
    then have lt: "?pp < pos" by auto
    have "siftdown_loop heap startpos pos newitem =
          siftdown_loop (heap[pos := heap ! ?pp]) startpos ?pp newitem"
      using True by (subst siftdown_loop.simps) (simp add: Let_def)
    also have "mset \<dots> = mset (heap[pos := heap ! ?pp, ?pp := newitem])"
      using True lt "1.prems" by (intro "1.IH") auto
    also have "\<dots> = mset (heap[pos := newitem])"
      using lt "1.prems" by (intro mset_update_twice) auto
    finally show ?thesis .
  next
    case False
    then show ?thesis by (subst siftdown_loop.simps) (auto simp: Let_def)
  qed
qed

lemma mset_siftdown: "pos < length heap \<Longrightarrow> mset (siftdown heap startpos pos) = mset heap"
  by (simp add: siftdown_def mset_siftdown_loop)

lemma mset_siftup_loop:
  "siftup_loop heap endpos pos childpos = (h, p) \<Longrightarrow> endpos = length heap \<Longrightarrow>
   pos < childpos \<Longrightarrow> pos < length heap \<Longrightarrow>
   p < length heap \<and> mset (h[p := x]) = mset (heap[pos := x])"
proof (induction heap endpos pos childpos arbitrary: h p rule: siftup_loop.induct)
  case (1 heap endpos pos childpos)
  show ?case
  proof (cases "childpos < endpos")
    case True
    define c1 where "c1 = (if childpos + 1 < endpos \<and> \<not> node_lt (heap ! childpos) (heap ! (childpos + 1))
                           then childpos + 1 else childpos)"
    have c1: "c1 < length heap" "pos < c1" "c1 < 2 * c1 + 1"
      using True "1.prems" by (auto simp: c1_def)
    have "siftup_loop heap endpos pos childpos =
          siftup_loop (heap[pos := heap ! c1]) endpos c1 (2 * c1 + 1)"
      unfolding c1_def using True
      by (subst siftup_loop.simps[of heap endpos pos childpos]) (simp only: Let_def if_True)
    then have eq: "siftup_loop (heap[pos := heap ! c1]) endpos c1 (2 * c1 + 1) = (h, p)"
      using "1.prems"(1) by simp
    have "p < length (heap[pos := heap ! c1]) \<and>
          mset (h[p := x]) = mset (heap[pos := heap ! c1, c1 := x])"
      using True c1 "1.prems" eq
      by (intro "1.IH"[OF True refl c1_def]) auto
    moreover have "mset (heap[pos := heap ! c1, c1 := x]) = mset (heap[pos := x])"
      using c1 "1.prems" by (intro mset_update_twice) auto
    ultimately show ?thesis by simp
  next
    case False
    then show ?thesis using "1.prems" by (subst (asm) siftup_loop.simps) auto
  qed
qed

lemma mset_siftup: "pos < length heap \<Longrightarrow> mset (siftup heap pos) = mset heap"
proof -
  assume pos: "pos < length heap"
  obtain h p where hp: "siftup_loop heap (length heap) pos (2 * pos + 1) = (h, p)"
    by (cases "siftup_loop heap (length heap) pos (2 * pos + 1)")
  have len: "length h = length heap" using hp by (rule length_siftup_loop_eq)
  have "p < length heap \<and> mset (h[p := heap ! pos]) = mset (heap[pos := heap ! pos])"
    using mset_siftup_loop[OF hp refl] pos by simp
  then show ?thesis using hp len by (simp add: siftup_def mset_siftdown)
qed

lemma mset_heapify_loop:
  "\<forall>i \<in> set idx. i < length x \<Longrightarrow>
   mset (heapify_loop x idx) = mset x \<and> length (heapify_loop x idx) = length x"
  by (induction x idx rule: heapify_loop.induct) (simp_all add: mset_siftup)

lemma heapify_indices: "\<forall>i \<in> set (rev [0 ..< length x div 2]). i < length x"
  by auto

lemma mset_heapify: "mset (heapify x) = mset x"
  using mset_heapify_loop [OF heapify_indices, of x] by (simp add: heapify_def)

lemma length_heapify: "length (heapify x) = length x"
  using mset_heapify_loop [OF heapify_indices, of x] by (simp add: heapify_def)

lemma mset_heappush: "mset (heappush heap item) = add_mset item (mset heap)"
  by (simp add: heappush_def Let_def mset_siftdown)

lemma heappop_mset:
  assumes "heap \<noteq> []"
  shows "\<exists>x h. heappop heap = Inr (x, h) \<and> mset heap = add_mset x (mset h)"
proof (cases "butlast heap = []")
  case True
  then have "heap = [last heap]" using assms by (metis append_butlast_last_id append_Nil)
  then show ?thesis using assms True by (simp add: heappop_def Let_def)
next
  case False
  let ?b = "butlast heap"
  have h: "heap = ?b @ [last heap]" using assms by simp
  have len: "Suc 0 < length heap" using False by (cases heap rule: rev_cases) auto
  have "mset (siftup (?b[0 := last heap]) 0) = mset (?b[0 := last heap])"
    using len by (intro mset_siftup) simp
  also have "\<dots> = add_mset (last heap) (mset ?b - {#?b ! 0#})"
    using len by (simp add: mset_update)
  finally have "add_mset (?b ! 0) (mset (siftup (?b[0 := last heap]) 0)) = add_mset (last heap) (mset ?b)"
    using False len by (simp add: nth_mem_mset)
  also have "\<dots> = mset heap" by (subst (2) h) simp
  finally show ?thesis using assms False by (simp add: heappop_def Let_def)
qed

subsection \<open>One turn of the loop\<close>

lemma build_loop_step:
  assumes "1 < length heap"
  shows "\<exists>a h1 b h2. heappop heap = Inr (a, h1) \<and> heappop h1 = Inr (b, h2)
           \<and> mset heap = add_mset a (mset h1) \<and> mset h1 = add_mset b (mset h2)
           \<and> build_loop heap steps =
               build_loop (heappush h2 (Node None (freq a + freq b) (Some a) (Some b)))
                 (steps @ [(a, b, freq a + freq b)])"
proof -
  from assms have "heap \<noteq> []" by auto
  from heappop_mset[OF this] obtain a h1 where
    a: "heappop heap = Inr (a, h1)" "mset heap = add_mset a (mset h1)" by blast
  from length_heappop[OF a(1)] assms have "h1 \<noteq> []" by auto
  from heappop_mset[OF this] obtain b h2 where
    b: "heappop h1 = Inr (b, h2)" "mset h1 = add_mset b (mset h2)" by blast
  have "build_loop heap steps =
          build_loop (heappush h2 (Node None (freq a + freq b) (Some a) (Some b)))
            (steps @ [(a, b, freq a + freq b)])"
    using assms a(1) b(1) by (subst build_loop.simps) (simp add: Let_def)
  with a b show ?thesis by blast
qed

lemma build_loop_invariant:
  assumes init: "I (mset heap) steps"
    and step: "\<And>a b R st. I (add_mset a (add_mset b R)) st \<Longrightarrow>
                 I (add_mset (Node None (freq a + freq b) (Some a) (Some b)) R)
                   (st @ [(a, b, freq a + freq b)])"
  shows "\<exists>h st. build_loop heap steps = Inr (h, st) \<and> I (mset h) st
           \<and> length h = (if heap = [] then 0 else 1)"
  using init
proof (induction "length heap" arbitrary: heap steps rule: less_induct)
  case less
  show ?case
  proof (cases "1 < length heap")
    case False
    then have "length heap = (if heap = [] then 0 else 1)" by (cases heap) auto
    with False less.prems show ?thesis by (simp add: build_loop_short)
  next
    case True
    from build_loop_step[OF True, of steps] obtain a h1 b h2 where
      s: "heappop heap = Inr (a, h1)" "heappop h1 = Inr (b, h2)"
         "mset heap = add_mset a (mset h1)" "mset h1 = add_mset b (mset h2)"
         "build_loop heap steps =
            build_loop (heappush h2 (Node None (freq a + freq b) (Some a) (Some b)))
              (steps @ [(a, b, freq a + freq b)])"
      by blast
    let ?h = "heappush h2 (Node None (freq a + freq b) (Some a) (Some b))"
    have len: "length ?h < length heap"
      using length_heappop[OF s(1)] length_heappop[OF s(2)] by simp
    have "I (mset ?h) (steps @ [(a, b, freq a + freq b)])"
      using step[of a b "mset h2" steps] less.prems s(3,4) by (simp add: mset_heappush)
    from less.hyps[OF len this] obtain h st where
      r: "build_loop ?h (steps @ [(a, b, freq a + freq b)]) = Inr (h, st)" "I (mset h) st"
         "length h = (if ?h = [] then 0 else 1)" by blast
    have "?h \<noteq> []" using length_heappush[of h2] by (metis length_0_conv nat.distinct(1))
    moreover have "heap \<noteq> []" using True by auto
    ultimately show ?thesis using r s(5) by auto
  qed
qed

text \<open>The leaves of the input and the heap they start from.\<close>

lemma build_huffman_tree_invariant:
  assumes init: "I (mset (map (\<lambda>(ch, f). Node_init (Some ch) f) freq_map)) []"
    and step: "\<And>a b R st. I (add_mset a (add_mset b R)) st \<Longrightarrow>
                 I (add_mset (Node None (freq a + freq b) (Some a) (Some b)) R)
                   (st @ [(a, b, freq a + freq b)])"
  shows "\<exists>tree st. build_huffman_tree freq_map = Inr (tree, st)
           \<and> I (case tree of None \<Rightarrow> {#} | Some t \<Rightarrow> {#t#}) st
           \<and> (tree = None \<longleftrightarrow> freq_map = [])"
proof -
  let ?h0 = "heapify (map (\<lambda>(ch, f). Node_init (Some ch) f) freq_map)"
  have "I (mset ?h0) []" using init by (simp add: mset_heapify)
  from build_loop_invariant[of I ?h0 "[]", OF this step] obtain h st where
    r: "build_loop ?h0 [] = Inr (h, st)" "I (mset h) st"
       "length h = (if ?h0 = [] then 0 else 1)" by blast
  have e: "?h0 = [] \<longleftrightarrow> freq_map = []"
    using length_heapify[of "map (\<lambda>(ch, f). Node_init (Some ch) f) freq_map"]
    by (metis length_0_conv length_map)
  show ?thesis
  proof (cases "freq_map = []")
    case True
    with r e show ?thesis by (simp add: build_huffman_tree_def)
  next
    case False
    with r(3) e obtain t where "h = [t]" by (cases h) auto
    with r False show ?thesis by (simp add: build_huffman_tree_def)
  qed
qed

subsection \<open>Codes are paths\<close>

lemma assign_codes_paths:
  "assign_codes node pfx cm =
     fold (\<lambda>(s, p). AList.update s (pfx @ p)) (case node of None \<Rightarrow> [] | Some t \<Rightarrow> paths t)
       (case cm of None \<Rightarrow> [] | Some m \<Rightarrow> m)"
proof (induction node pfx cm rule: assign_codes.induct)
  case (1 pfx code_map_arg)
  show ?case by simp
next
  case (2 c f l r pfx code_map_arg)
  note ih1 = "2.IH"(1)[OF refl refl] and ih2 = "2.IH"(2)[OF refl refl refl]
  show ?case using ih1 ih2
    by (cases c; cases l; cases r)
       (simp_all add: fold_map comp_def case_prod_unfold)
qed

lemma fold_update_keys:
  "fst ` set (fold (\<lambda>(s, p). AList.update s (g p)) ps m) = fst ` set m \<union> fst ` set ps"
  by (induction ps arbitrary: m) (auto simp: AList.dom_update case_prod_unfold)

lemma fold_update_subset:
  "set (fold (\<lambda>(s, p). AList.update s (g p)) ps m) \<subseteq> set m \<union> (\<lambda>(s, p). (s, g p)) ` set ps"
proof (induction ps arbitrary: m)
  case Nil
  show ?case by simp
next
  case (Cons x ps)
  obtain s p where x: "x = (s, p)" by (cases x)
  have "set (AList.update s (g p) m) \<subseteq> insert (s, g p) (set m)"
    by (induction m) auto
  with Cons[of "AList.update s (g p) m"] show ?case by (auto simp: x)
qed

lemma paths_keys: "map fst (paths t) = map fst (leaves t)"
proof (induction t rule: leaves.induct)
  case (1 c f l r)
  show ?case
    by (cases c; cases l; cases r) (simp_all add: 1 comp_def case_prod_unfold)
qed

lemma assign_codes_keys:
  "fst ` set (assign_codes (Some t) [] None) = fst ` set (leaves t)"
proof -
  have "fst ` set (assign_codes (Some t) [] None) = fst ` set (paths t)"
    by (simp add: assign_codes_paths fold_update_keys)
  also have "\<dots> = set (map fst (paths t))" by simp
  also have "\<dots> = fst ` set (leaves t)" by (simp only: paths_keys) simp
  finally show ?thesis .
qed

lemma assign_codes_subset: "set (assign_codes (Some t) [] None) \<subseteq> set (paths t)"
  using fold_update_subset[of "\<lambda>p. p" "paths t" "[]"]
  by (simp add: assign_codes_paths)

subsection \<open>What the loop keeps\<close>

lemma initial_weight:
  "sum_mset (image_mset freq (mset (map (\<lambda>(ch, f). Node_init (Some ch) f) freq_map))) =
   sum_list (map snd freq_map)"
  by (induction freq_map) (auto simp: Node_init_def)

lemma initial_leaves:
  "(\<Sum>t \<in># mset (map (\<lambda>(ch, f). Node_init (Some ch) f) freq_map). mset (leaves t)) =
   mset freq_map"
  by (induction freq_map) (auto simp: Node_init_def)

lemma initial_wf:
  "\<forall>t \<in># mset (map (\<lambda>(ch, f). Node_init (Some ch) f) freq_map). wf_tree t"
  by (induction freq_map) (auto simp: Node_init_def)

lemma build_huffman_tree_structure:
  "\<exists>tree st. build_huffman_tree freq_map = Inr (tree, st)
     \<and> (tree = None \<longleftrightarrow> freq_map = [])
     \<and> (\<forall>t. tree = Some t \<longrightarrow> wf_tree t \<and> mset (leaves t) = mset freq_map)
     \<and> length st = length freq_map - 1"
proof -
  define I where "I = (\<lambda>(Q :: 'a node multiset) (st :: 'a merge_step list).
      (Q = {#} \<longrightarrow> freq_map = []) \<and> size Q + length st = length freq_map
      \<and> (\<Sum>t \<in># Q. mset (leaves t)) = mset freq_map \<and> (\<forall>t \<in># Q. wf_tree t))"
  have init: "I (mset (map (\<lambda>(ch, f). Node_init (Some ch) f) freq_map)) []"
    unfolding I_def using initial_leaves[of freq_map] initial_wf[of freq_map] by simp
  have step: "I (add_mset (Node None (freq a + freq b) (Some a) (Some b)) R)
                (st @ [(a, b, freq a + freq b)])"
    if "I (add_mset a (add_mset b R)) st" for a b R st
    using that unfolding I_def by (simp add: ac_simps)
  from build_huffman_tree_invariant[of I freq_map, OF init step] obtain tree st where
    r: "build_huffman_tree freq_map = Inr (tree, st)"
       "I (case tree of None \<Rightarrow> {#} | Some t \<Rightarrow> {#t#}) st"
       "tree = None \<longleftrightarrow> freq_map = []"
    by blast
  show ?thesis
  proof (cases tree)
    case None
    with r show ?thesis by (auto simp: I_def)
  next
    case (Some t)
    with r show ?thesis by (auto simp: I_def)
  qed
qed

lemma wf_paths_prefix:
  "wf_tree t \<Longrightarrow> (s1, p1) \<in> set (paths t) \<Longrightarrow> (s2, p2) \<in> set (paths t) \<Longrightarrow>
   prefix p1 p2 \<Longrightarrow> s1 = s2"
proof (induction t arbitrary: p1 p2 rule: wf_tree.induct)
  case (1 ch f)
  then show ?case by simp
next
  case (2 f a b)
  then show ?case by auto
qed simp_all

lemma fold_update_distinct:
  "distinct (map fst m) \<Longrightarrow> distinct (map fst (fold (\<lambda>(s, p). AList.update s (g p)) ps m))"
  by (induction ps arbitrary: m) (auto simp: AList.distinct_update case_prod_unfold)

lemma assign_codes_distinct: "distinct (map fst (assign_codes (Some t) [] None))"
  by (simp add: assign_codes_paths fold_update_distinct)

lemma assign_codes_length:
  assumes "distinct (map fst (leaves t))"
  shows "length (assign_codes (Some t) [] None) = length (leaves t)"
proof -
  let ?cs = "assign_codes (Some t) [] None"
  have "length ?cs = length (map fst ?cs)" by simp
  also have "\<dots> = card (set (map fst ?cs))"
    using assign_codes_distinct[of t] by (simp only: distinct_card)
  also have "set (map fst ?cs) = set (map fst (leaves t))"
    using assign_codes_keys[of t] by simp
  also have "card \<dots> = length (map fst (leaves t))"
    using assms by (simp only: distinct_card)
  finally show ?thesis by simp
qed

section \<open>Weights\<close>

text \<open>
  C4. Every step \<open>(left, right, mergedWeight)\<close> of the trace returned by
  \<^verbatim>\<open>build_huffman_tree\<close> has \<open>mergedWeight = freq left + freq right\<close>, and when the table
  is not empty the weight of the returned root is the sum of all frequencies of the
  table. Weights are Python integers, so no sum overflows.
\<close>

theorem weight_conservation:
  "\<exists>tree steps. build_huffman_tree freq_map = Inr (tree, steps)
     \<and> (\<forall>(l, r, w) \<in> set steps. w = freq l + freq r)
     \<and> (freq_map \<noteq> [] \<longrightarrow> (\<exists>t. tree = Some t \<and> freq t = sum_list (map snd freq_map)))"
proof -
  define I where "I = (\<lambda>(Q :: 'a node multiset) (st :: 'a merge_step list).
      sum_mset (image_mset freq Q) = sum_list (map snd freq_map)
      \<and> (\<forall>(l, r, w) \<in> set st. w = freq l + freq r))"
  have init: "I (mset (map (\<lambda>(ch, f). Node_init (Some ch) f) freq_map)) []"
    unfolding I_def using initial_weight[of freq_map] by simp
  have step: "I (add_mset (Node None (freq a + freq b) (Some a) (Some b)) R)
                (st @ [(a, b, freq a + freq b)])"
    if "I (add_mset a (add_mset b R)) st" for a b R st
    using that unfolding I_def by (simp add: ac_simps)
  from build_huffman_tree_invariant[of I freq_map, OF init step] obtain tree st where
    r: "build_huffman_tree freq_map = Inr (tree, st)"
       "I (case tree of None \<Rightarrow> {#} | Some t \<Rightarrow> {#t#}) st"
       "tree = None \<longleftrightarrow> freq_map = []"
    by blast
  show ?thesis
  proof (cases tree)
    case None
    with r show ?thesis by (auto simp: I_def)
  next
    case (Some t)
    with r show ?thesis by (auto simp: I_def)
  qed
qed

lemma build_abc:
  "build_huffman_tree [(CHR ''a'', 5), (CHR ''b'', 9), (CHR ''c'', 12)] =
   Inr (Some (Node None 26 (Some (Node (Some (CHR ''c'')) 12 None None))
               (Some (Node None 14 (Some (Node (Some (CHR ''a'')) 5 None None))
                                   (Some (Node (Some (CHR ''b'')) 9 None None))))),
        [(Node (Some (CHR ''a'')) 5 None None, Node (Some (CHR ''b'')) 9 None None, 14),
         (Node (Some (CHR ''c'')) 12 None None,
          Node None 14 (Some (Node (Some (CHR ''a'')) 5 None None))
                       (Some (Node (Some (CHR ''b'')) 9 None None)), 26)])"
  by code_simp

theorem weight_conservation_witness:
  "\<exists>t steps. build_huffman_tree [(CHR ''a'', 5), (CHR ''b'', 9), (CHR ''c'', 12)] = Inr (Some t, steps)
     \<and> map (\<lambda>(l, r, w). (freq l, freq r, w)) steps = [(5, 9, 14), (12, 14, 26)]
     \<and> freq t = 5 + 9 + 12"
  using weight_conservation [of "[(CHR ''a'', 5), (CHR ''b'', 9), (CHR ''c'', 12)]"]
  by (simp add: build_abc)

section \<open>Leaves, trace length and keys\<close>

lemma leaves_distinct:
  assumes "mset (leaves t) = mset freq_map" "distinct (map fst freq_map)"
  shows "distinct (map fst (leaves t))"
proof -
  have "mset (map fst (leaves t)) = mset (map fst freq_map)"
    using assms(1) by (metis mset_map)
  then show ?thesis using assms(2) by (metis mset_eq_imp_distinct_iff)
qed

text \<open>
  C10. For a table of \<open>n \<ge> 1\<close> symbols (a dictionary, so its keys are distinct),
  \<^verbatim>\<open>build_huffman_tree\<close> returns a trace of \<open>n - 1\<close> steps and a root whose tree is well
  formed and has as leaves exactly the entries of the table, one per symbol; and
  \<^verbatim>\<open>assign_codes\<close> on that root returns a code table of \<open>n\<close> entries whose keys are
  exactly the symbols of the table.
\<close>

theorem leaves_trace_and_keys:
  assumes "distinct (map fst freq_map)" and "1 \<le> length freq_map"
  shows "\<exists>t steps. build_huffman_tree freq_map = Inr (Some t, steps)
           \<and> length steps = length freq_map - 1
           \<and> wf_tree t \<and> mset (leaves t) = mset freq_map
           \<and> length (leaves t) = length freq_map
           \<and> length (assign_codes (Some t) [] None) = length freq_map
           \<and> fst ` set (assign_codes (Some t) [] None) = fst ` set freq_map"
proof -
  from build_huffman_tree_structure[of freq_map] obtain tree st where
    r: "build_huffman_tree freq_map = Inr (tree, st)" "tree = None \<longleftrightarrow> freq_map = []"
       "\<forall>t. tree = Some t \<longrightarrow> wf_tree t \<and> mset (leaves t) = mset freq_map"
       "length st = length freq_map - 1"
    by blast
  from assms(2) r(2) obtain t where t: "tree = Some t" by (cases tree) auto
  with r(3) have wf: "wf_tree t" and lv: "mset (leaves t) = mset freq_map" by auto
  have len: "length (leaves t) = length freq_map" using lv by (metis size_mset)
  have keys: "fst ` set (leaves t) = fst ` set freq_map" using lv by (metis set_mset_mset)
  have "length (assign_codes (Some t) [] None) = length (leaves t)"
    using leaves_distinct[OF lv assms(1)] by (rule assign_codes_length)
  with r(1,4) t wf lv len keys show ?thesis by (simp add: assign_codes_keys)
qed

lemma codes_abc:
  "assign_codes (Some (Node None 26 (Some (Node (Some (CHR ''c'')) 12 None None))
               (Some (Node None 14 (Some (Node (Some (CHR ''a'')) 5 None None))
                                   (Some (Node (Some (CHR ''b'')) 9 None None)))))) [] None =
   [(CHR ''c'', ''0''), (CHR ''a'', ''10''), (CHR ''b'', ''11'')]"
  by code_simp

theorem leaves_trace_and_keys_witness:
  "distinct (map fst [(CHR ''a'', 5 :: int), (CHR ''b'', 9), (CHR ''c'', 12)])
   \<and> 1 \<le> length [(CHR ''a'', 5 :: int), (CHR ''b'', 9), (CHR ''c'', 12)]
   \<and> (\<exists>t steps. build_huffman_tree [(CHR ''a'', 5), (CHR ''b'', 9), (CHR ''c'', 12)] = Inr (Some t, steps)
        \<and> length steps = 2
        \<and> leaves t = [(CHR ''c'', 12), (CHR ''a'', 5), (CHR ''b'', 9)]
        \<and> map fst (assign_codes (Some t) [] None) = [CHR ''c'', CHR ''a'', CHR ''b''])"
  using leaves_trace_and_keys [of "[(CHR ''a'', 5), (CHR ''b'', 9), (CHR ''c'', 12)]"]
  by (simp add: build_abc codes_abc)

section \<open>Counts that are not positive\<close>

text \<open>
  C2, as the code has it. \<^verbatim>\<open>build_huffman_tree\<close> has no check on the counts and raises
  nothing: for every table it returns a tree, and an entry whose count is zero or
  negative is a leaf of that tree like any other. (The table that
  \<^verbatim>\<open>animate_frequency_count\<close> hands over always holds the 26 letters, most of them with
  count zero.)
\<close>

theorem nonpositive_counts_are_built:
  assumes "(s, c) \<in> set freq_map" and "c \<le> 0"
  shows "\<exists>t steps. build_huffman_tree freq_map = Inr (Some t, steps) \<and> (s, c) \<in> set (leaves t)"
proof -
  from build_huffman_tree_structure[of freq_map] obtain tree st where
    r: "build_huffman_tree freq_map = Inr (tree, st)" "tree = None \<longleftrightarrow> freq_map = []"
       "\<forall>t. tree = Some t \<longrightarrow> wf_tree t \<and> mset (leaves t) = mset freq_map"
    by blast
  from assms(1) r(2) obtain t where t: "tree = Some t" by (cases tree) auto
  with r(3) have "mset (leaves t) = mset freq_map" by auto
  then have "set (leaves t) = set freq_map" by (metis set_mset_mset)
  with r(1) t assms(1) show ?thesis by auto
qed

lemma build_nonpositive:
  "build_huffman_tree [(CHR ''a'', 0), (CHR ''b'', - 2), (CHR ''c'', 3)] =
   Inr (Some (Node None 1
                (Some (Node None (- 2) (Some (Node (Some (CHR ''b'')) (- 2) None None))
                                       (Some (Node (Some (CHR ''a'')) 0 None None))))
                (Some (Node (Some (CHR ''c'')) 3 None None))),
        [(Node (Some (CHR ''b'')) (- 2) None None, Node (Some (CHR ''a'')) 0 None None, - 2),
         (Node None (- 2) (Some (Node (Some (CHR ''b'')) (- 2) None None))
                          (Some (Node (Some (CHR ''a'')) 0 None None)),
          Node (Some (CHR ''c'')) 3 None None, 1)])"
  by code_simp

theorem nonpositive_counts_are_built_witness:
  "(CHR ''a'', 0) \<in> set [(CHR ''a'', 0 :: int), (CHR ''b'', - 2), (CHR ''c'', 3)] \<and> (0 :: int) \<le> 0
   \<and> (\<exists>t steps. build_huffman_tree [(CHR ''a'', 0), (CHR ''b'', - 2), (CHR ''c'', 3)] = Inr (Some t, steps)
         \<and> (CHR ''a'', 0) \<in> set (leaves t))"
  using nonpositive_counts_are_built
          [of "CHR ''a''" 0 "[(CHR ''a'', 0), (CHR ''b'', - 2), (CHR ''c'', 3)]"]
  by simp

text \<open>
  C2 as stated fails on the table \<^verbatim>\<open>{a: 0, b: -2, c: 3}\<close>: the result is a regular one,
  a tree in which \<^verbatim>\<open>a\<close> and \<^verbatim>\<open>b\<close> are leaves with their counts.
\<close>

theorem nonpositive_counts_counterexample:
  "build_huffman_tree [(CHR ''a'', 0), (CHR ''b'', - 2), (CHR ''c'', 3)] =
   Inr (Some (Node None 1
                (Some (Node None (- 2) (Some (Node (Some (CHR ''b'')) (- 2) None None))
                                       (Some (Node (Some (CHR ''a'')) 0 None None))))
                (Some (Node (Some (CHR ''c'')) 3 None None))),
        [(Node (Some (CHR ''b'')) (- 2) None None, Node (Some (CHR ''a'')) 0 None None, - 2),
         (Node None (- 2) (Some (Node (Some (CHR ''b'')) (- 2) None None))
                          (Some (Node (Some (CHR ''a'')) 0 None None)),
          Node (Some (CHR ''c'')) 3 None None, 1)])
   \<and> build_huffman_tree [(CHR ''a'', 0), (CHR ''b'', - 2), (CHR ''c'', 3)] \<noteq> Inl IndexError
   \<and> build_huffman_tree [(CHR ''a'', 0), (CHR ''b'', - 2), (CHR ''c'', 3)] \<noteq> Inl KeyError"
  by (simp add: build_nonpositive)

lemma gui_table_has_zero_counts:
  "animate_frequency_count ''aaaa'' =
     (CHR ''a'', 4) # map (\<lambda>c. (c, 0)) ''bcdefghijklmnopqrstuvwxyz''"
  by code_simp

section \<open>Prefix-free codes\<close>

text \<open>
  C3. For a table with at least two symbols (a dictionary, so its keys are distinct;
  the counts may be any integers, positive ones in particular), the code table that
  \<^verbatim>\<open>assign_codes\<close> returns on the tree of \<^verbatim>\<open>build_huffman_tree\<close> has one entry per symbol,
  and the code of no symbol is a prefix of the code of another symbol.
\<close>

theorem prefix_free:
  assumes "distinct (map fst freq_map)" and "2 \<le> length freq_map"
  shows "\<exists>t steps. build_huffman_tree freq_map = Inr (Some t, steps)
           \<and> length (assign_codes (Some t) [] None) = length freq_map
           \<and> (\<forall>(s1, c1) \<in> set (assign_codes (Some t) [] None).
                \<forall>(s2, c2) \<in> set (assign_codes (Some t) [] None).
                  s1 \<noteq> s2 \<longrightarrow> \<not> prefix c1 c2)"
proof -
  from build_huffman_tree_structure[of freq_map] obtain tree st where
    r: "build_huffman_tree freq_map = Inr (tree, st)" "tree = None \<longleftrightarrow> freq_map = []"
       "\<forall>t. tree = Some t \<longrightarrow> wf_tree t \<and> mset (leaves t) = mset freq_map"
    by blast
  from assms(2) r(2) obtain t where t: "tree = Some t" by (cases tree) auto
  with r(3) have wf: "wf_tree t" and lv: "mset (leaves t) = mset freq_map" by auto
  have "length (leaves t) = length freq_map" using lv by (metis size_mset)
  then have len: "length (assign_codes (Some t) [] None) = length freq_map"
    using assign_codes_length[OF leaves_distinct[OF lv assms(1)]] by simp
  have "s1 = s2"
    if "(s1, c1) \<in> set (assign_codes (Some t) [] None)"
       "(s2, c2) \<in> set (assign_codes (Some t) [] None)" "prefix c1 c2" for s1 c1 s2 c2
    using that assign_codes_subset[of t] wf_paths_prefix[OF wf, of s1 c1 s2 c2] by auto
  with r(1) t len show ?thesis by auto
qed

theorem prefix_free_witness:
  "distinct (map fst [(CHR ''a'', 5 :: int), (CHR ''b'', 9), (CHR ''c'', 12)])
   \<and> 2 \<le> length [(CHR ''a'', 5 :: int), (CHR ''b'', 9), (CHR ''c'', 12)]
   \<and> (\<exists>t steps. build_huffman_tree [(CHR ''a'', 5), (CHR ''b'', 9), (CHR ''c'', 12)] = Inr (Some t, steps)
        \<and> assign_codes (Some t) [] None = [(CHR ''c'', ''0''), (CHR ''a'', ''10''), (CHR ''b'', ''11'')]
        \<and> \<not> prefix ''0'' ''10'' \<and> \<not> prefix ''0'' ''11'' \<and> \<not> prefix ''10'' ''11''
        \<and> \<not> prefix ''10'' ''0'' \<and> \<not> prefix ''11'' ''0'' \<and> \<not> prefix ''11'' ''10'')"
  using prefix_free [of "[(CHR ''a'', 5), (CHR ''b'', 9), (CHR ''c'', 12)]"]
  by (simp add: build_abc codes_abc)

section \<open>The encoder\<close>

lemma dict_contains_lookup: "dict_contains d k \<Longrightarrow> \<exists>v. map_of d k = Some v"
  by (cases "map_of d k") (auto simp: dict_contains_def map_of_eq_None_iff)

lemma encode_total: "\<exists>out. encode message cs = Inr out"
proof (induction message)
  case Nil
  show ?case by simp
next
  case (Cons ch rest)
  then obtain out where "encode rest cs = Inr out" by blast
  then show ?case using dict_contains_lookup[of cs ch] by (cases "dict_contains cs ch") auto
qed

text \<open>
  C8. For every message and every code table, the encoder returns a bit string and never
  an error: the concatenation of \<open>codes[s]\<close> over exactly those symbols \<open>s\<close> of the
  message that are keys of the table, in the order of the message. Symbols that are not
  keys are skipped. (In \<^verbatim>\<open>run_huffman_steps\<close> the message is \<^verbatim>\<open>text.lower()\<close>.)
\<close>

theorem encode_skips_unknown:
  "encode message cs =
     Inr (concat (map (\<lambda>s. the (map_of cs s)) (filter (\<lambda>s. s \<in> fst ` set cs) message)))"
proof (induction message)
  case Nil
  show ?case by simp
next
  case (Cons ch rest)
  show ?case
  proof (cases "dict_contains cs ch")
    case True
    then obtain v where "map_of cs ch = Some v" using dict_contains_lookup by fastforce
    with True Cons show ?thesis by (simp add: dict_contains_def)
  next
    case False
    with Cons show ?thesis by (simp add: dict_contains_def)
  qed
qed

section \<open>The compression metric\<close>

text \<open>
  C9, as the code has it. \<^verbatim>\<open>run_huffman_steps\<close> always completes; the original size is
  8 bits per character of the text, the compressed size is the length of the encoded
  string, and the ratio is \<open>(original - compressed) / original * 100\<close> when the original
  size is positive and 0 otherwise (as an exact rational here; the two values below are
  exact in binary floating point too). For the text \<^verbatim>\<open>aaaa\<close> and the one-symbol table
  \<^verbatim>\<open>{a: 4}\<close> the sizes are 32 and 0 and the ratio is 100, since the only code is the empty
  string. For the same text and the table of 26 letters that \<^verbatim>\<open>animate_frequency_count\<close>
  builds from it, the sizes are 32 and 4 and the ratio is 87.5.
\<close>

theorem compression_metric:
  "(\<exists>r. run_huffman_steps final_freq text = Inr r
       \<and> original_bits r = 8 * int (length text)
       \<and> compressed_bits r = int (length (encoded r))
       \<and> ratio r = (if original_bits r > 0
                     then of_int (original_bits r - compressed_bits r) / of_int (original_bits r) * 100
                     else 0))
   \<and> (\<exists>r. run_huffman_steps [(CHR ''a'', 4)] ''aaaa'' = Inr r
         \<and> original_bits r = 32 \<and> compressed_bits r = 0 \<and> ratio r = 100)
   \<and> (\<exists>r. run_animation ''aaaa'' = Some (Inr r)
         \<and> original_bits r = 32 \<and> compressed_bits r = 4 \<and> ratio r = 175 / 2)"
proof -
  obtain tree st where b: "build_huffman_tree final_freq = Inr (tree, st)"
    using build_huffman_tree_structure[of final_freq] by blast
  obtain enc where e: "encode (lower text) (assign_codes tree [] None) = Inr enc"
    using encode_total by blast
  have general: "\<exists>r. run_huffman_steps final_freq text = Inr r
       \<and> original_bits r = 8 * int (length text)
       \<and> compressed_bits r = int (length (encoded r))
       \<and> ratio r = (if original_bits r > 0
                     then of_int (original_bits r - compressed_bits r) / of_int (original_bits r) * 100
                     else 0)"
    by (simp add: run_huffman_steps_def b e Let_def compression_ratio_def)
  have "(case run_huffman_steps [(CHR ''a'', 4)] ''aaaa'' of
           Inr r \<Rightarrow> original_bits r = 32 \<and> compressed_bits r = 0 \<and> ratio r = 100
         | Inl e \<Rightarrow> False)"
    by code_simp
  then have single: "\<exists>r. run_huffman_steps [(CHR ''a'', 4)] ''aaaa'' = Inr r
         \<and> original_bits r = 32 \<and> compressed_bits r = 0 \<and> ratio r = 100"
    by (auto split: sum.splits)
  have "(case run_animation ''aaaa'' of
           Some (Inr r) \<Rightarrow> original_bits r = 32 \<and> compressed_bits r = 4 \<and> ratio r = 175 / 2
         | _ \<Rightarrow> False)"
    by code_simp
  then have gui: "\<exists>r. run_animation ''aaaa'' = Some (Inr r)
         \<and> original_bits r = 32 \<and> compressed_bits r = 4 \<and> ratio r = 175 / 2"
    by (auto split: option.splits sum.splits)
  from general single gui show ?thesis by blast
qed

text \<open>
  C9 as stated fails for the text \<^verbatim>\<open>aaaa\<close> with the table \<^verbatim>\<open>{a: 4}\<close>: the compressed
  size is 0 bits, not 4, and the ratio is 100, not 87.5.
\<close>

theorem compression_metric_counterexample:
  "run_huffman_steps [(CHR ''a'', 4)] ''aaaa'' =
     Inr \<lparr>merge_steps = [], codes = [(CHR ''a'', [])], encoded = [],
          original_bits = 32, compressed_bits = 0, ratio = 100\<rparr>
   \<and> (0 :: int) \<noteq> 4 \<and> (100 :: rat) \<noteq> 175 / 2"
  by code_simp

section \<open>Round trip\<close>

lemma wf_tree_cases:
  assumes "wf_tree n"
  obtains (Leaf) ch f where "n = Node (Some ch) f None None"
        | (Inner) f a b where "n = Node None f (Some a) (Some b)" "wf_tree a" "wf_tree b"
  using assms by (cases n rule: wf_tree.cases) auto

lemma decode_walk_path:
  "wf_tree cur \<Longrightarrow> cur = (case position of None \<Rightarrow> tree | Some n \<Rightarrow> n) \<Longrightarrow>
   (s, p) \<in> set (paths cur) \<Longrightarrow> p \<noteq> [] \<Longrightarrow>
   decode_walk tree position (p @ rest) = map_option (Cons s) (decode_walk tree None rest)"
proof (induction p arbitrary: cur position)
  case Nil
  then show ?case by simp
next
  case (Cons b q)
  from Cons.prems(1) show ?case
  proof (cases cur rule: wf_tree_cases)
    case (Leaf ch f)
    with Cons.prems(3) show ?thesis by simp
  next
    case (Inner f l r)
    from Cons.prems(3) Inner(1) consider
        (L) "b = CHR ''0''" "(s, q) \<in> set (paths l)"
      | (R) "b = CHR ''1''" "(s, q) \<in> set (paths r)"
      by auto
    then show ?thesis
    proof cases
      case L
      from Inner(2) show ?thesis
      proof (cases l rule: wf_tree_cases)
        case (Leaf ch g)
        with L Inner(1) Cons.prems(2) show ?thesis by (simp add: Let_def)
      next
        case (Inner g x y)
        with L(2) have "q \<noteq> []" by auto
        from Cons.IH[OF \<open>wf_tree l\<close>, of "Some l", OF _ L(2) this]
        show ?thesis using L(1) Inner(1) \<open>cur = Node None f (Some l) (Some r)\<close> Cons.prems(2)
          by (simp add: Let_def)
      qed
    next
      case R
      from Inner(3) show ?thesis
      proof (cases r rule: wf_tree_cases)
        case (Leaf ch g)
        with R Inner(1) Cons.prems(2) show ?thesis by (simp add: Let_def)
      next
        case (Inner g x y)
        with R(2) have "q \<noteq> []" by auto
        from Cons.IH[OF \<open>wf_tree r\<close>, of "Some r", OF _ R(2) this]
        show ?thesis using R(1) Inner(1) \<open>cur = Node None f (Some l) (Some r)\<close> Cons.prems(2)
          by (simp add: Let_def)
      qed
    qed
  qed
qed

lemma inner_paths_nonempty:
  "(s, p) \<in> set (paths (Node None f (Some a) (Some b))) \<Longrightarrow> p \<noteq> []"
  by auto

lemma round_trip_inner:
  assumes wf: "wf_tree t" and inner: "t = Node None f (Some a) (Some b)"
  shows "\<exists>bits. encode message (assign_codes (Some t) [] None) = Inr bits
           \<and> decode_walk t None bits =
               Some (filter (dict_contains (assign_codes (Some t) [] None)) message)"
proof (induction message)
  case Nil
  show ?case by simp
next
  case (Cons ch rest)
  let ?cs = "assign_codes (Some t) [] None"
  from Cons obtain bits where
    ih: "encode rest ?cs = Inr bits" "decode_walk t None bits = Some (filter (dict_contains ?cs) rest)"
    by blast
  show ?case
  proof (cases "dict_contains ?cs ch")
    case False
    with ih show ?thesis by simp
  next
    case True
    then obtain c where c: "map_of ?cs ch = Some c" using dict_contains_lookup by fastforce
    then have "(ch, c) \<in> set ?cs" by (rule map_of_SomeD)
    then have p: "(ch, c) \<in> set (paths t)" using assign_codes_subset[of t] by auto
    then have "c \<noteq> []" using inner by auto
    have "decode_walk t None (c @ bits) = map_option (Cons ch) (decode_walk t None bits)"
      by (rule decode_walk_path[OF wf _ p \<open>c \<noteq> []\<close>]) simp
    then have "decode_walk t None (c @ bits) = Some (ch # filter (dict_contains ?cs) rest)"
      using ih(2) by simp
    with True c ih(1) show ?thesis by simp
  qed
qed

lemma two_leaves_inner:
  assumes "wf_tree t" "2 \<le> length (leaves t)"
  shows "\<exists>f a b. t = Node None f (Some a) (Some b)"
  using assms by (cases t rule: wf_tree_cases) auto

text \<open>
  C6, as the code has it. Take the tree and the code table that the pipeline produces
  from a frequency table that does not have exactly one symbol. For every message,
  encoding succeeds, and decoding the bit string with the tree gives back exactly the
  symbols of the message that are keys of the code table, in order; so a message made
  of such symbols only is given back whole.
\<close>

theorem round_trip:
  assumes "length freq_map \<noteq> 1"
  shows "\<exists>tree steps. build_huffman_tree freq_map = Inr (tree, steps)
           \<and> (\<forall>message. \<exists>bits.
                 encode message (assign_codes tree [] None) = Inr bits
                 \<and> decode tree bits =
                     Some (filter (dict_contains (assign_codes tree [] None)) message))"
proof -
  from build_huffman_tree_structure[of freq_map] obtain tree st where
    r: "build_huffman_tree freq_map = Inr (tree, st)" "tree = None \<longleftrightarrow> freq_map = []"
       "\<forall>t. tree = Some t \<longrightarrow> wf_tree t \<and> mset (leaves t) = mset freq_map"
    by blast
  show ?thesis
  proof (cases tree)
    case None
    then show ?thesis using r(1) by (auto simp: decode_def encode_no_codes dict_contains_def)
  next
    case (Some t)
    with r(3) have wf: "wf_tree t" and lv: "mset (leaves t) = mset freq_map" by auto
    have len: "length (leaves t) = length freq_map" using lv by (metis size_mset)
    have "length freq_map \<noteq> 0" using Some r(2) by auto
    with assms have "2 \<le> length freq_map" by linarith
    with len have "2 \<le> length (leaves t)" by simp
    from two_leaves_inner[OF wf this] obtain f a b where "t = Node None f (Some a) (Some b)"
      by blast
    from round_trip_inner[OF wf this] Some r(1) show ?thesis by (auto simp: decode_def)
  qed
qed

theorem round_trip_witness:
  "length [(CHR ''a'', 5 :: int), (CHR ''b'', 9), (CHR ''c'', 12)] \<noteq> 1
   \<and> (\<exists>tree steps. build_huffman_tree [(CHR ''a'', 5), (CHR ''b'', 9), (CHR ''c'', 12)] = Inr (tree, steps)
         \<and> (\<exists>bits. encode ''abxcab'' (assign_codes tree [] None) = Inr bits
               \<and> bits = ''101101011''
               \<and> decode tree bits = Some ''abcab''))"
proof -
  let ?fm = "[(CHR ''a'', 5 :: int), (CHR ''b'', 9), (CHR ''c'', 12)]"
  have n: "length ?fm \<noteq> 1" by simp
  from round_trip[OF n] obtain tree steps where
    t: "build_huffman_tree ?fm = Inr (tree, steps)"
       "\<forall>message. \<exists>bits. encode message (assign_codes tree [] None) = Inr bits
            \<and> decode tree bits = Some (filter (dict_contains (assign_codes tree [] None)) message)"
    by blast
  from t(2) obtain bits where
    b: "encode ''abxcab'' (assign_codes tree [] None) = Inr bits"
       "decode tree bits = Some (filter (dict_contains (assign_codes tree [] None)) ''abxcab'')"
    by blast
  from t(1) have cs: "assign_codes tree [] None = [(CHR ''c'', ''0''), (CHR ''a'', ''10''), (CHR ''b'', ''11'')]"
    by (auto simp: build_abc codes_abc)
  have "bits = ''101101011''" using b(1) by (simp add: cs dict_contains_def)
  moreover have "filter (dict_contains (assign_codes tree [] None)) ''abxcab'' = ''abcab''"
    by (simp add: cs dict_contains_def)
  ultimately show ?thesis using n t(1) b by auto
qed

text \<open>
  C6 as stated fails for the table \<^verbatim>\<open>{a: 5}\<close>: the code of \<^verbatim>\<open>a\<close> is empty, the messages
  \<^verbatim>\<open>aa\<close> and \<^verbatim>\<open>a\<close> both encode to the empty bit string, and decoding it gives the empty
  message.
\<close>

theorem round_trip_counterexample:
  "build_huffman_tree [(CHR ''a'', 5)] = Inr (Some (Node (Some (CHR ''a'')) 5 None None), [])
   \<and> assign_codes (Some (Node (Some (CHR ''a'')) 5 None None)) [] None = [(CHR ''a'', [])]
   \<and> encode ''aa'' [(CHR ''a'', [])] = Inr []
   \<and> encode ''a'' [(CHR ''a'', [])] = Inr []
   \<and> decode (Some (Node (Some (CHR ''a'')) 5 None None)) [] = Some []
   \<and> decode (Some (Node (Some (CHR ''a'')) 5 None None)) [] \<noteq> Some ''aa''"
  by (simp add: build_huffman_tree_def heapify_def build_loop_short Node_init_def
        dict_contains_def decode_def)

section \<open>The queue is a min-heap\<close>

lemma desc_le: "desc s p \<Longrightarrow> s \<le> p"
  by (induction rule: desc.induct) auto

lemma desc_parent: "desc s p \<Longrightarrow> p \<noteq> s \<Longrightarrow> desc s ((p - 1) div 2)"
  by (cases rule: desc.cases) auto

lemma desc_parent_le: "desc s p \<Longrightarrow> p \<noteq> s \<Longrightarrow> s \<le> (p - 1) div 2"
  by (rule desc_le) (rule desc_parent)

lemma desc_zero: "desc 0 p"
proof (induction p rule: less_induct)
  case (less p)
  show ?case
  proof (cases "p = 0")
    case True
    then show ?thesis by (simp add: desc_self)
  next
    case False
    then have d: "desc 0 ((p - 1) div 2)" by (intro less) auto
    have "p = 2 * ((p - 1) div 2) + 1 \<or> p = 2 * ((p - 1) div 2) + 2" using False by presburger
    then show ?thesis using desc_left[OF d] desc_right[OF d] by metis
  qed
qed

lemma parent_eq: "0 < (c :: nat) \<Longrightarrow> (c - 1) div 2 = p \<longleftrightarrow> c = 2 * p + 1 \<or> c = 2 * p + 2"
  by presburger

lemma parent_less: "0 < (c :: nat) \<Longrightarrow> (c - 1) div 2 < c"
  by presburger

lemma siftdown_loop_heap:
  "pos < length heap \<Longrightarrow> desc s pos \<Longrightarrow>
   (\<forall>c < length heap. 0 < c \<and> s \<le> (c - 1) div 2 \<and> c \<noteq> pos \<longrightarrow>
      (if (c - 1) div 2 = pos then freq x else freq (heap ! ((c - 1) div 2))) \<le> freq (heap ! c)) \<Longrightarrow>
   (s < pos \<longrightarrow> (\<forall>c < length heap. 0 < c \<and> (c - 1) div 2 = pos \<longrightarrow>
      freq (heap ! ((pos - 1) div 2)) \<le> freq (heap ! c))) \<Longrightarrow>
   heap_from s (siftdown_loop heap s pos x)"
proof (induction heap s pos x rule: siftdown_loop.induct)
  case (1 heap s pos x)
  let ?pp = "(pos - 1) div 2"
  let ?n = "length heap"
  note A1 = "1.prems"(3)[rule_format]
  note A2 = "1.prems"(4)[rule_format]
  have spos: "s \<le> pos" using "1.prems"(2) by (rule desc_le)
  show ?case
  proof (cases "s < pos \<and> node_lt x (heap ! ?pp)")
    case True
    then have lt: "freq x < freq (heap ! ?pp)" and sp: "s < pos" by (auto simp: node_lt_def)
    have pp: "?pp < pos" "?pp < ?n" "s \<le> ?pp" "desc s ?pp"
      using sp "1.prems"(1,2) desc_parent[of s pos] desc_parent_le[of s pos] by auto
    let ?h = "heap[pos := heap ! ?pp]"
    have eq: "siftdown_loop heap s pos x = siftdown_loop ?h s ?pp x"
      using True by (subst siftdown_loop.simps) (simp add: Let_def)
    have J1: "(if (c - 1) div 2 = ?pp then freq x else freq (?h ! ((c - 1) div 2))) \<le> freq (?h ! c)"
      if c: "c < length ?h" "0 < c \<and> s \<le> (c - 1) div 2 \<and> c \<noteq> ?pp" for c
    proof -
      consider (a) "c = pos" | (b) "c \<noteq> pos" "(c - 1) div 2 = ?pp"
        | (c) "c \<noteq> pos" "(c - 1) div 2 = pos" | (d) "c \<noteq> pos" "(c - 1) div 2 \<noteq> ?pp" "(c - 1) div 2 \<noteq> pos"
        by blast
      then show ?thesis
      proof cases
        case a
        then show ?thesis using lt "1.prems"(1) by simp
      next
        case b
        then have "freq (heap ! ?pp) \<le> freq (heap ! c)" using A1[of c] c pp by auto
        then show ?thesis using b lt by simp
      next
        case c
        then have "freq (heap ! ?pp) \<le> freq (heap ! c)" using A2[of c] sp that by auto
        then show ?thesis using c pp "1.prems"(1) by simp
      next
        case d
        then show ?thesis using A1[of c] c by simp
      qed
    qed
    have J2: "freq (?h ! ((?pp - 1) div 2)) \<le> freq (?h ! c)"
      if spp: "s < ?pp" and c: "c < length ?h" "0 < c \<and> (c - 1) div 2 = ?pp" for c
    proof -
      let ?gp = "(?pp - 1) div 2"
      have gp: "?gp < ?pp" "s \<le> ?gp"
        using spp desc_parent_le[OF pp(4)] parent_less[of ?pp] by auto
      have g: "freq (heap ! ?gp) \<le> freq (heap ! ?pp)"
        using A1[of ?pp] pp gp spp by auto
      have hg: "?h ! ?gp = heap ! ?gp" using gp pp by simp
      show ?thesis
      proof (cases "c = pos")
        case True
        then show ?thesis using g hg "1.prems"(1) by simp
      next
        case False
        then have "freq (heap ! ?pp) \<le> freq (heap ! c)" using A1[of c] c pp by auto
        then show ?thesis using g hg False by simp
      qed
    qed
    have "heap_from s (siftdown_loop ?h s ?pp x)"
      using True pp J1 J2 by (intro "1.IH") (auto simp: Let_def)
    then show ?thesis by (simp only: eq)
  next
    case False
    then have eq: "siftdown_loop heap s pos x = heap[pos := x]"
      by (subst siftdown_loop.simps) (auto simp: Let_def)
    have "freq ((heap[pos := x]) ! ((c - 1) div 2)) \<le> freq ((heap[pos := x]) ! c)"
      if c: "c < ?n" "0 < c" "s \<le> (c - 1) div 2" for c
    proof (cases "c = pos")
      case ne: False
      have "(c - 1) div 2 < ?n" using c parent_less[of c] by simp
      then show ?thesis using A1[of c] c ne "1.prems"(1)
        by (cases "(c - 1) div 2 = pos") simp_all
    next
      case True
      have "s < pos" using c True parent_less[of c] by simp
      with False have "freq (heap ! ?pp) \<le> freq x" by (simp add: node_lt_def)
      then show ?thesis using True c "1.prems"(1) parent_less[of c] by simp
    qed
    then show ?thesis by (simp add: eq heap_from_def)
  qed
qed

lemma siftup_loop_heap:
  "siftup_loop heap n pos cp = (h, p) \<Longrightarrow> n = length heap \<Longrightarrow> cp = 2 * pos + 1 \<Longrightarrow>
   pos < n \<Longrightarrow> desc s pos \<Longrightarrow>
   (\<forall>c < n. 0 < c \<and> s \<le> (c - 1) div 2 \<and> (pos = s \<longrightarrow> (c - 1) div 2 \<noteq> s) \<longrightarrow>
      freq (heap ! ((c - 1) div 2)) \<le> freq (heap ! c)) \<Longrightarrow>
   desc s p \<and> p < n \<and> n \<le> 2 * p + 1 \<and> heap_from s h"
proof (induction heap n pos cp arbitrary: h p rule: siftup_loop.induct)
  case (1 heap n pos cp)
  note I = "1.prems"(6)[rule_format]
  have spos: "s \<le> pos" using "1.prems"(5) by (rule desc_le)
  show ?case
  proof (cases "cp < n")
    case False
    then have hp: "h = heap" "p = pos"
      using "1.prems"(1) by (subst (asm) siftup_loop.simps, simp)+
    have "freq (heap ! ((c - 1) div 2)) \<le> freq (heap ! c)"
      if c: "c < length heap" "0 < c" "s \<le> (c - 1) div 2" for c
    proof -
      have "(c - 1) div 2 \<noteq> pos"
        using c False "1.prems"(2,3) parent_eq[of c pos] by auto
      then show ?thesis using I[of c] c "1.prems"(2) by auto
    qed
    then show ?thesis using hp False "1.prems"(2-5) by (simp add: heap_from_def)
  next
    case True
    define c1 where "c1 = (if cp + 1 < n \<and> \<not> node_lt (heap ! cp) (heap ! (cp + 1))
                           then cp + 1 else cp)"
    let ?h = "heap[pos := heap ! c1]"
    have "siftup_loop heap n pos cp = siftup_loop ?h n c1 (2 * c1 + 1)"
      unfolding c1_def using True
      by (subst siftup_loop.simps[of heap n pos cp]) (simp only: Let_def if_True)
    then have eq: "siftup_loop ?h n c1 (2 * c1 + 1) = (h, p)" using "1.prems"(1) by simp
    have c1: "c1 < n" "pos < c1" "c1 = 2 * pos + 1 \<or> c1 = 2 * pos + 2" "0 < c1"
             "(c1 - 1) div 2 = pos"
      using True "1.prems"(3) by (auto simp: c1_def)
    have d: "desc s c1" using c1(3) desc_left[OF "1.prems"(5)] desc_right[OF "1.prems"(5)] by auto
    have small: "freq (heap ! c1) \<le> freq (heap ! c)"
      if "c < n" "0 < c" "(c - 1) div 2 = pos" for c
    proof -
      have "c = cp \<or> c = cp + 1" using that "1.prems"(3) parent_eq[of c pos] by auto
      then show ?thesis using that(1) by (auto simp: c1_def node_lt_def)
    qed
    have I': "freq (?h ! ((c - 1) div 2)) \<le> freq (?h ! c)"
      if c: "c < n" "0 < c \<and> s \<le> (c - 1) div 2 \<and> (c1 = s \<longrightarrow> (c - 1) div 2 \<noteq> s)" for c
    proof -
      consider (a) "c = pos" | (b) "c \<noteq> pos" "(c - 1) div 2 = pos"
        | (c) "c \<noteq> pos" "(c - 1) div 2 \<noteq> pos" by blast
      then show ?thesis
      proof cases
        case a
        then have ne: "pos \<noteq> s" using c parent_less[of pos] by auto
        have "freq (heap ! ((pos - 1) div 2)) \<le> freq (heap ! pos)" using I[of pos] a c ne by auto
        moreover have "freq (heap ! pos) \<le> freq (heap ! c1)" using I[of c1] c1 ne spos by auto
        ultimately show ?thesis using a c "1.prems"(2,4) parent_less[of pos] by simp
      next
        case b
        then show ?thesis using small[of c] c "1.prems"(2,4) by simp
      next
        case c
        then show ?thesis using I[of c] that by simp
      qed
    qed
    have "desc s p \<and> p < n \<and> n \<le> 2 * p + 1 \<and> heap_from s h"
      using eq c1 d I' "1.prems"(2)
      by (intro "1.IH"[OF True refl c1_def]) auto
    then show ?thesis .
  qed
qed

lemma siftup_heap:
  assumes "pos < length heap" "heap_from (Suc pos) heap"
  shows "heap_from pos (siftup heap pos)"
proof -
  let ?n = "length heap"
  obtain h p where hp: "siftup_loop heap ?n pos (2 * pos + 1) = (h, p)"
    by (cases "siftup_loop heap ?n pos (2 * pos + 1)")
  have len: "length h = ?n" using hp by (rule length_siftup_loop_eq)
  have "desc pos p \<and> p < ?n \<and> ?n \<le> 2 * p + 1 \<and> heap_from pos h"
    using assms(2) by (intro siftup_loop_heap[OF hp refl refl assms(1) desc_self])
      (auto simp: heap_from_def)
  then have p: "desc pos p" "p < ?n" "?n \<le> 2 * p + 1" and hf: "heap_from pos h" by auto
  let ?x = "heap ! pos"
  let ?h2 = "h[p := ?x]"
  have nochild: "(c - 1) div 2 \<noteq> p" if "c < ?n" "0 < c" for c
    using that p(3) parent_eq[of c p] by auto
  have "heap_from pos (siftdown_loop ?h2 pos p ?x)"
  proof (rule siftdown_loop_heap)
    show "p < length ?h2" using p len by simp
    show "desc pos p" by (rule p)
    show "\<forall>c<length ?h2. 0 < c \<and> pos \<le> (c - 1) div 2 \<and> c \<noteq> p \<longrightarrow>
            (if (c - 1) div 2 = p then freq ?x else freq (?h2 ! ((c - 1) div 2))) \<le> freq (?h2 ! c)"
    proof (intro allI impI)
      fix c assume c: "c < length ?h2" "0 < c \<and> pos \<le> (c - 1) div 2 \<and> c \<noteq> p"
      then have np: "(c - 1) div 2 \<noteq> p" using nochild[of c] len by simp
      have "freq (h ! ((c - 1) div 2)) \<le> freq (h ! c)"
        using hf c len by (simp add: heap_from_def)
      then show "(if (c - 1) div 2 = p then freq ?x else freq (?h2 ! ((c - 1) div 2)))
                   \<le> freq (?h2 ! c)"
        using np c by simp
    qed
    show "pos < p \<longrightarrow> (\<forall>c<length ?h2. 0 < c \<and> (c - 1) div 2 = p \<longrightarrow>
            freq (?h2 ! ((p - 1) div 2)) \<le> freq (?h2 ! c))"
      using nochild len by auto
  qed
  moreover have "?h2 ! p = ?x" using p len by simp
  ultimately show ?thesis using hp by (simp add: siftup_def siftdown_def Let_def)
qed

lemma heapify_loop_heap:
  "k \<le> length x \<Longrightarrow> heap_from k x \<Longrightarrow> heap_inv (heapify_loop x (rev [0 ..< k]))"
proof (induction k arbitrary: x)
  case 0
  then show ?case by (simp add: heap_inv_def)
next
  case (Suc k)
  have "heap_from k (siftup x k)" using Suc.prems by (intro siftup_heap) auto
  then show ?case using Suc by simp
qed

lemma heapify_heap: "heap_inv (heapify x)"
proof -
  have "heap_from (length x div 2) x"
  proof -
    have False if "c < length x" "0 < c" "length x div 2 \<le> (c - 1) div 2" for c
      using that by presburger
    then show ?thesis unfolding heap_from_def by blast
  qed
  then show ?thesis by (simp add: heapify_def heapify_loop_heap)
qed

lemma heappush_heap:
  assumes "heap_inv heap"
  shows "heap_inv (heappush heap item)"
proof -
  let ?h = "heap @ [item]"
  let ?n = "length heap"
  have "heap_from 0 (siftdown_loop ?h 0 ?n item)"
  proof (rule siftdown_loop_heap)
    show "?n < length ?h" by simp
    show "desc 0 ?n" by (rule desc_zero)
    show "\<forall>c<length ?h. 0 < c \<and> 0 \<le> (c - 1) div 2 \<and> c \<noteq> ?n \<longrightarrow>
            (if (c - 1) div 2 = ?n then freq item else freq (?h ! ((c - 1) div 2))) \<le> freq (?h ! c)"
    proof (intro allI impI)
      fix c assume c: "c < length ?h" "0 < c \<and> 0 \<le> (c - 1) div 2 \<and> c \<noteq> ?n"
      then have "c < ?n" "(c - 1) div 2 < ?n" using parent_less[of c] by auto
      then show "(if (c - 1) div 2 = ?n then freq item else freq (?h ! ((c - 1) div 2))) \<le> freq (?h ! c)"
        using assms c by (auto simp: heap_inv_def heap_from_def nth_append)
    qed
    show "0 < ?n \<longrightarrow> (\<forall>c<length ?h. 0 < c \<and> (c - 1) div 2 = ?n \<longrightarrow>
            freq (?h ! ((?n - 1) div 2)) \<le> freq (?h ! c))"
    proof (intro allI impI)
      fix c assume "0 < ?n" "c < length ?h" "0 < c \<and> (c - 1) div 2 = ?n"
      then have False using parent_eq[of c ?n] by auto
      then show "freq (?h ! ((?n - 1) div 2)) \<le> freq (?h ! c)" ..
    qed
  qed
  then show ?thesis by (simp add: heappush_def siftdown_def heap_inv_def)
qed

lemma heap_root_min: "heap_inv h \<Longrightarrow> i < length h \<Longrightarrow> freq (h ! 0) \<le> freq (h ! i)"
proof (induction i rule: less_induct)
  case (less i)
  show ?case
  proof (cases "i = 0")
    case True
    then show ?thesis by simp
  next
    case False
    then have "freq (h ! ((i - 1) div 2)) \<le> freq (h ! i)"
      using less.prems by (auto simp: heap_inv_def heap_from_def)
    moreover have "freq (h ! 0) \<le> freq (h ! ((i - 1) div 2))"
      using False less.prems parent_less[of i] by (intro less.IH) auto
    ultimately show ?thesis by simp
  qed
qed

lemma heappop_heap:
  assumes "heap_inv heap" "heappop heap = Inr (x, h)"
  shows "heap_inv h \<and> (\<forall>y \<in> set heap. freq x \<le> freq y)"
proof (cases "butlast heap = []")
  case True
  then show ?thesis using assms(2)
    by (cases heap rule: rev_cases) (auto simp: heappop_def Let_def heap_inv_def heap_from_def)
next
  case False
  let ?b = "butlast heap"
  have ne: "heap \<noteq> []" using False by auto
  have len: "Suc 0 < length heap" using False by (cases heap rule: rev_cases) auto
  have x: "x = heap ! 0" "h = siftup (?b[0 := last heap]) 0"
    using assms(2) False ne len by (auto simp: heappop_def Let_def nth_butlast)
  have "heap_from (Suc 0) (?b[0 := last heap])"
  proof -
    have "freq ((?b[0 := last heap]) ! ((c - 1) div 2)) \<le> freq ((?b[0 := last heap]) ! c)"
      if c: "c < length heap - 1" "0 < c" "Suc 0 \<le> (c - 1) div 2" for c
    proof -
      have "(c - 1) div 2 < c" using c parent_less[of c] by simp
      then have "freq (heap ! ((c - 1) div 2)) \<le> freq (heap ! c)"
        using assms(1) c by (auto simp: heap_inv_def heap_from_def)
      then show ?thesis using c \<open>(c - 1) div 2 < c\<close> by (simp add: nth_butlast)
    qed
    then show ?thesis by (simp add: heap_from_def)
  qed
  then have "heap_from 0 h" unfolding x using len by (intro siftup_heap) auto
  moreover have "freq x \<le> freq y" if "y \<in> set heap" for y
  proof -
    from that obtain i where "i < length heap" "heap ! i = y" by (auto simp: in_set_conv_nth)
    then show ?thesis using heap_root_min[OF assms(1), of i] x by simp
  qed
  ultimately show ?thesis by (simp add: heap_inv_def)
qed

section \<open>The greedy merge\<close>

lemma build_loop_greedy:
  "heap_inv heap \<Longrightarrow>
   \<exists>h tr. build_loop heap steps = Inr (h, steps @ tr) \<and> greedy_run (mset heap) tr (mset h)"
proof (induction "length heap" arbitrary: heap steps rule: less_induct)
  case less
  show ?case
  proof (cases "1 < length heap")
    case False
    then have "size (mset heap) \<le> 1" by simp
    then have "greedy_run (mset heap) [] (mset heap)" by (rule greedy_stop)
    with False show ?thesis by (simp add: build_loop_short)
  next
    case True
    from build_loop_step[OF True, of steps] obtain a h1 b h2 where
      s: "heappop heap = Inr (a, h1)" "heappop h1 = Inr (b, h2)"
         "mset heap = add_mset a (mset h1)" "mset h1 = add_mset b (mset h2)"
         "build_loop heap steps =
            build_loop (heappush h2 (Node None (freq a + freq b) (Some a) (Some b)))
              (steps @ [(a, b, freq a + freq b)])"
      by blast
    let ?parent = "Node None (freq a + freq b) (Some a) (Some b)"
    let ?h = "heappush h2 ?parent"
    let ?Q = "mset heap"
    from heappop_heap[OF less.prems s(1)] have
      h1: "heap_inv h1" and amin: "\<forall>y \<in> set heap. freq a \<le> freq y" by auto
    from heappop_heap[OF h1 s(2)] have
      h2: "heap_inv h2" and bmin: "\<forall>y \<in> set h1. freq b \<le> freq y" by auto
    have inv: "heap_inv ?h" using h2 by (rule heappush_heap)
    have len: "length ?h < length heap"
      using length_heappop[OF s(1)] length_heappop[OF s(2)] by simp
    from less.hyps[OF len inv, of "steps @ [(a, b, freq a + freq b)]"] obtain h tr where
      r: "build_loop ?h (steps @ [(a, b, freq a + freq b)]) =
            Inr (h, (steps @ [(a, b, freq a + freq b)]) @ tr)"
         "greedy_run (mset ?h) tr (mset h)"
      by blast
    have rest: "?Q - {#a#} = mset h1" "?Q - {#a#} - {#b#} = mset h2"
      using s(3,4) by simp_all
    have "greedy_run ?Q ((a, b, freq a + freq b) # tr) (mset h)"
    proof (rule greedy_step)
      show "1 < size ?Q" using True by simp
      show "a \<in># ?Q" using s(3) by simp
      show "\<forall>x \<in># ?Q. freq a \<le> freq x" using amin by simp
      show "b \<in># ?Q - {#a#}" using rest(1) s(4) by simp
      show "\<forall>x \<in># ?Q - {#a#}. freq b \<le> freq x" using bmin rest(1) by simp
      show "greedy_run (add_mset ?parent (?Q - {#a#} - {#b#})) tr (mset h)"
        using r(2) rest(2) by (simp add: mset_heappush)
    qed
    with r(1) s(5) show ?thesis by simp
  qed
qed

text \<open>
  C5. \<^verbatim>\<open>build_huffman_tree\<close> returns, and what it returns is a run of the greedy merge:
  the queue starts with one leaf per entry of the table; while it holds more than one
  node, the first popped node \<open>a\<close> has the lowest weight of the queue and the second
  one \<open>b\<close> the lowest weight of the rest, the new inner node has \<open>a\<close> as left child,
  \<open>b\<close> as right child and weight \<open>freq a + freq b\<close>, it goes back into the queue, and
  \<open>(a, b, freq a + freq b)\<close> is appended to the trace; the run ends on a queue of one
  node, the root, or on the empty queue.
\<close>

theorem greedy_merge:
  "\<exists>tree steps. build_huffman_tree freq_map = Inr (tree, steps)
     \<and> greedy_run (mset (map (\<lambda>(ch, f). Node (Some ch) f None None) freq_map)) steps
          (case tree of None \<Rightarrow> {#} | Some t \<Rightarrow> {#t#})
     \<and> size (case tree of None \<Rightarrow> {#} | Some t \<Rightarrow> {#t#}) \<le> 1"
proof -
  let ?leaves = "map (\<lambda>(ch, f). Node_init (Some ch) f) freq_map"
  have l: "?leaves = map (\<lambda>(ch, f). Node (Some ch) f None None) freq_map"
    by (simp add: Node_init_def)
  from build_loop_greedy[OF heapify_heap, of ?leaves "[]"] obtain h tr where
    r: "build_loop (heapify ?leaves) [] = Inr (h, tr)"
       "greedy_run (mset ?leaves) tr (mset h)"
    by (auto simp: mset_heapify)
  from build_loop_invariant[of "\<lambda>Q st. True" "heapify ?leaves" "[]"] r(1)
  have "length h \<le> 1" by (auto split: if_splits)
  then consider "h = []" | t where "h = [t]" by (cases h) auto
  then show ?thesis
  proof cases
    case 1
    with r show ?thesis by (simp add: build_huffman_tree_def l)
  next
    case 2
    with r show ?thesis by (simp add: build_huffman_tree_def l)
  qed
qed

theorem greedy_merge_witness:
  "greedy_run
     {#Node (Some (CHR ''a'')) 5 None None, Node (Some (CHR ''b'')) 9 None None,
       Node (Some (CHR ''c'')) 12 None None#}
     [(Node (Some (CHR ''a'')) 5 None None, Node (Some (CHR ''b'')) 9 None None, 14),
      (Node (Some (CHR ''c'')) 12 None None,
       Node None 14 (Some (Node (Some (CHR ''a'')) 5 None None))
                    (Some (Node (Some (CHR ''b'')) 9 None None)), 26)]
     {#Node None 26 (Some (Node (Some (CHR ''c'')) 12 None None))
         (Some (Node None 14 (Some (Node (Some (CHR ''a'')) 5 None None))
                             (Some (Node (Some (CHR ''b'')) 9 None None))))#}"
  using greedy_merge [of "[(CHR ''a'', 5), (CHR ''b'', 9), (CHR ''c'', 12)]"]
  by (simp add: build_abc)

end
